theory Spec2Isabelle
  imports Main "HOL-Library.Monad_Syntax"
begin

section \<open>The board of \<^verbatim>\<open>main.c\<close>\<close>

text \<open>
  The anonymous enum \<^verbatim>\<open>enum { WHITE, BLACK, EMPTY }\<close> gives the state of a square
  and also the colour that is to move: \<^verbatim>\<open>struct board_pos\<close> stores both as
  \<^verbatim>\<open>int\<close>, and the code only ever writes the three enumerators into them.
\<close>

datatype square = WHITE | BLACK | EMPTY

text \<open>
  \<^verbatim>\<open>struct board_pos { int sq[SQUARES_MAX]; int color; }\<close>. The array is a list;
  a board of the program has \<^verbatim>\<open>SQUARES_MAX\<close> entries.
\<close>

record board_pos =
  sq :: "square list"
  color :: square

text \<open>
  \<^verbatim>\<open>struct move_list { int move[MOVES_MAX]; int moves; }\<close>: the array of moves and
  the number of entries of it that are in use.
\<close>

record move_list =
  move :: "int list"
  moves :: int

definition MOVES_MAX :: nat where
  "MOVES_MAX = 9"

definition SQUARES_MAX :: nat where
  "SQUARES_MAX = 9"

definition MOVE_NONE :: int where
  "MOVE_NONE = - 1"

text \<open>\<^verbatim>\<open>const int INF = 100\<close>; the names \<open>INF\<close>, \<open>MAX\<close> and \<open>MIN\<close> are taken in HOL.\<close>

definition INF_score :: int where
  "INF_score = 100"

definition winning_squares :: "int list list" where
  "winning_squares =
     [[0, 1, 2], [3, 4, 5], [6, 7, 8],
      [0, 3, 6], [1, 4, 7], [2, 5, 8],
      [0, 4, 8], [2, 4, 6]]"

text \<open>The macros \<^verbatim>\<open>MAX(X,Y) (X > Y ? X : Y)\<close> and \<^verbatim>\<open>MIN(X,Y) (X > Y ? Y : X)\<close>.\<close>

definition MAX_of :: "int \<Rightarrow> int \<Rightarrow> int" where
  "MAX_of X Y = (if X > Y then X else Y)"

definition MIN_of :: "int \<Rightarrow> int \<Rightarrow> int" where
  "MIN_of X Y = (if X > Y then Y else X)"

text \<open>
  A position as the specification describes it: nine squares, and a colour to move that
  is one of the two marks.
\<close>

definition position :: "board_pos \<Rightarrow> bool" where
  "position pos \<longleftrightarrow> length (sq pos) = SQUARES_MAX \<and> color pos \<noteq> EMPTY"

section \<open>Move handling\<close>

text \<open>
  \<^verbatim>\<open>move_generate\<close> first resets all of \<^verbatim>\<open>mp->move\<close> to \<^verbatim>\<open>MOVE_NONE\<close> and \<^verbatim>\<open>mp->moves\<close>
  to 0, so the result does not depend on what \<^verbatim>\<open>mp\<close> held; then it walks the squares
  0 to 8 and appends every empty one at index \<^verbatim>\<open>mp->moves\<close>.
\<close>

definition move_generate_step :: "board_pos \<Rightarrow> nat \<Rightarrow> move_list \<Rightarrow> move_list" where
  "move_generate_step pos i mp =
     (if sq pos ! i = EMPTY
      then mp\<lparr>move := (move mp)[nat (moves mp) := int i], moves := moves mp + 1\<rparr>
      else mp)"

definition move_generate :: "board_pos \<Rightarrow> move_list" where
  "move_generate pos =
     fold (move_generate_step pos) [0..<SQUARES_MAX]
       \<lparr>move = replicate MOVES_MAX MOVE_NONE, moves = 0\<rparr>"

text \<open>
  The entries \<^verbatim>\<open>mp->move[0 .. mp->moves - 1]\<close>, which is what every loop over a
  move list reads.
\<close>

definition generated :: "move_list \<Rightarrow> int list" where
  "generated mp = take (nat (moves mp)) (move mp)"

text \<open>
  \<^verbatim>\<open>move_do\<close> and \<^verbatim>\<open>move_undo\<close> write \<^verbatim>\<open>pos->sq[move]\<close> and flip \<^verbatim>\<open>pos->color\<close>.
  The callers pass indices 0 to 8 only; an index outside the array is undefined
  behaviour in C and is not what the theorems below are about.
\<close>

definition move_do :: "board_pos \<Rightarrow> int \<Rightarrow> board_pos" where
  "move_do pos m =
     pos\<lparr>sq := (sq pos)[nat m := color pos],
         color := (if color pos = WHITE then BLACK else WHITE)\<rparr>"

definition move_undo :: "board_pos \<Rightarrow> int \<Rightarrow> board_pos" where
  "move_undo pos m =
     pos\<lparr>sq := (sq pos)[nat m := EMPTY],
         color := (if color pos = WHITE then BLACK else WHITE)\<rparr>"

text \<open>\<^verbatim>\<open>board_empty\<close>: true as soon as one of the squares 0 to 8 is empty.\<close>

fun board_empty_from :: "board_pos \<Rightarrow> nat list \<Rightarrow> bool" where
  "board_empty_from pos [] = False"
| "board_empty_from pos (i # is) =
     (if sq pos ! i = EMPTY then True else board_empty_from pos is)"

definition board_empty :: "board_pos \<Rightarrow> bool" where
  "board_empty pos = board_empty_from pos [0..<SQUARES_MAX]"

section \<open>Evaluation\<close>

text \<open>
  The inner loop of \<^verbatim>\<open>checkmate\<close> counts the squares of one line that hold
  \<^verbatim>\<open>player_color\<close> and leaves the line at the first square that does not.
\<close>

fun checkmate_line :: "board_pos \<Rightarrow> square \<Rightarrow> int list \<Rightarrow> int \<Rightarrow> int" where
  "checkmate_line pos player_color [] ours = ours"
| "checkmate_line pos player_color (s # ss) ours =
     (if sq pos ! nat s = player_color
      then checkmate_line pos player_color ss (ours + 1)
      else ours)"

fun checkmate_lines :: "board_pos \<Rightarrow> square \<Rightarrow> int list list \<Rightarrow> int" where
  "checkmate_lines pos player_color [] = 0"
| "checkmate_lines pos player_color (l # ls) =
     (if checkmate_line pos player_color l 0 = 3 then 1
      else checkmate_lines pos player_color ls)"

definition checkmate :: "board_pos \<Rightarrow> int" where
  "checkmate pos =
     (let player_color = (if color pos = WHITE then BLACK else WHITE)
      in checkmate_lines pos player_color winning_squares)"

text \<open>
  \<^verbatim>\<open>eval\<close>: for every line, count our own squares; with more than one, each empty
  square of the line adds a point and each enemy square takes one away.
\<close>

definition eval_ours :: "board_pos \<Rightarrow> int list \<Rightarrow> int" where
  "eval_ours pos l =
     fold (\<lambda>s ours. if sq pos ! nat s = color pos then ours + 1 else ours) l 0"

definition eval_square :: "board_pos \<Rightarrow> square \<Rightarrow> int \<Rightarrow> int \<Rightarrow> int" where
  "eval_square pos enemy_color s points =
     (let points = (if sq pos ! nat s = EMPTY then points + 1 else points)
      in if sq pos ! nat s = enemy_color then points - 1 else points)"

definition eval_line :: "board_pos \<Rightarrow> square \<Rightarrow> int list \<Rightarrow> int \<Rightarrow> int" where
  "eval_line pos enemy_color l points =
     (if eval_ours pos l > 1 then fold (eval_square pos enemy_color) l points
      else points)"

definition eval :: "board_pos \<Rightarrow> int" where
  "eval pos =
     (let enemy_color = (if color pos = WHITE then BLACK else WHITE)
      in fold (eval_line pos enemy_color) winning_squares 0)"

section \<open>Search\<close>

text \<open>
  A \<^verbatim>\<open>for\<close> loop over the generated moves whose body may call a function that is
  not known to return: it stops with \<open>None\<close> as soon as the body does.
\<close>

fun for_moves :: "(int \<Rightarrow> 's \<Rightarrow> 's option) \<Rightarrow> int list \<Rightarrow> 's \<Rightarrow> 's option" where
  "for_moves body [] s = Some s"
| "for_moves body (m # ms) s =
     (case body m s of None \<Rightarrow> None | Some s' \<Rightarrow> for_moves body ms s')"

lemma for_moves_mono [partial_function_mono]:
  assumes "\<And>m s. mono_option (\<lambda>f. body f m s)"
  shows "mono_option (\<lambda>f. for_moves (body f) ms s)"
proof (induction ms arbitrary: s)
  case Nil
  show ?case by (simp add: option.const_mono)
next
  case (Cons m ms)
  have "mono_option (\<lambda>f. Option.bind (body f m s) (\<lambda>s'. for_moves (body f) ms s'))"
    by (rule bind_mono) (rule assms, rule Cons.IH)
  moreover have "(\<lambda>f. for_moves (body f) (m # ms) s) =
      (\<lambda>f. Option.bind (body f m s) (\<lambda>s'. for_moves (body f) ms s'))"
    by (auto simp: fun_eq_iff split: option.splits)
  ultimately show ?case by simp
qed

text \<open>
  \<^verbatim>\<open>minimax\<close> works on the caller's board through the pointer \<^verbatim>\<open>pos\<close>: it plays each
  move on it, calls itself, and takes the move back. The model passes the board in and
  returns it with the score. \<open>None\<close> stands for a call that does not return. The
  counter \<^verbatim>\<open>nodecount\<close> is only printed and is left out.
\<close>

partial_function (option) minimax :: "board_pos \<Rightarrow> int \<Rightarrow> (board_pos \<times> int) option" where
  "minimax pos depth =
     (if checkmate pos \<noteq> 0 then Some (pos, if color pos = WHITE then - INF_score else INF_score)
      else if \<not> board_empty pos then Some (pos, 0)
      else
        let score = eval pos in
        if depth = 0 then Some (pos, if color pos = WHITE then - score else score)
        else
          let mlist = move_generate pos;
              score = (if color pos = WHITE then - INF_score else INF_score)
          in for_moves
               (\<lambda>m (pos, score). do {
                  (pos, score_best) \<leftarrow> minimax (move_do pos m) (depth - 1);
                  let pos = move_undo pos m;
                  Some (pos, if color pos = WHITE then MAX_of score score_best
                             else MIN_of score score_best)
                })
               (generated mlist) (pos, score))"

text \<open>The recursion equation of \<^verbatim>\<open>minimax\<close> is what concrete calls are evaluated with.\<close>

declare minimax.simps [code]

text \<open>
  \<^verbatim>\<open>move_pick\<close> ends with two assertions, and the second one reads
  \<^verbatim>\<open>pos->sq[move_picked]\<close>. On a full board \<^verbatim>\<open>move_picked\<close> is still \<^verbatim>\<open>mlist.move[0]\<close>,
  which is \<^verbatim>\<open>MOVE_NONE\<close>, and that read is outside the array.
\<close>

datatype failure = Assertion_failed | Read_outside_array

text \<open>
  \<^verbatim>\<open>move_pick\<close> tries every generated move on the caller's board, scores it with
  \<^verbatim>\<open>minimax\<close> and takes it back; it keeps the move whose score is strictly better than
  the best score so far. The \<^verbatim>\<open>printf\<close> calls and \<^verbatim>\<open>nodecount = 0\<close> are left out.
\<close>

definition move_pick :: "board_pos \<Rightarrow> int \<Rightarrow> (failure + board_pos \<times> int) option" where
  "move_pick pos depth =
     (let mlist = move_generate pos;
          move_picked = move mlist ! 0;
          score_current = (if color pos = WHITE then - INF_score else INF_score)
      in do {
        (pos, move_picked, score_current) \<leftarrow>
          for_moves
            (\<lambda>m (pos, move_picked, score_current). do {
               (pos, score_of_candidate_move) \<leftarrow> minimax (move_do pos m) depth;
               let pos = move_undo pos m;
               Some (if color pos = WHITE
                     then (if score_of_candidate_move > score_current
                           then (pos, m, score_of_candidate_move)
                           else (pos, move_picked, score_current))
                     else (if score_of_candidate_move < score_current
                           then (pos, m, score_of_candidate_move)
                           else (pos, move_picked, score_current)))
             })
            (generated mlist) (pos, move_picked, score_current);
        Some (if \<not> move_picked < int SQUARES_MAX then Inl Assertion_failed
              else if move_picked < 0 then Inl Read_outside_array
              else if sq pos ! nat move_picked \<noteq> EMPTY then Inl Assertion_failed
              else Inr (pos, move_picked))
      })"

text \<open>The board that \<^verbatim>\<open>newgame\<close> starts from: all squares empty, White to move.\<close>

definition start :: board_pos where
  "start = \<lparr>sq = [EMPTY, EMPTY, EMPTY, EMPTY, EMPTY, EMPTY, EMPTY, EMPTY, EMPTY],
            color = WHITE\<rparr>"

section \<open>Facts about move handling\<close>

lemma move_undo_move_do:
  assumes "color pos \<noteq> EMPTY" and "sq pos ! nat m = EMPTY"
  shows "move_undo (move_do pos m) m = pos"
proof -
  have "(sq pos)[nat m := color pos, nat m := EMPTY] = sq pos"
    using assms(2) by (metis list_update_id list_update_overwrite)
  then show ?thesis
    using assms(1) by (cases "color pos") (simp_all add: move_undo_def move_do_def)
qed

lemma move_generate_fold:
  assumes "length (move mp) = MOVES_MAX" and "moves mp = int k"
    and "k + length (filter (\<lambda>i. sq pos ! i = EMPTY) js) \<le> MOVES_MAX"
  shows "length (move (fold (move_generate_step pos) js mp)) = MOVES_MAX \<and>
         moves (fold (move_generate_step pos) js mp) =
           int (k + length (filter (\<lambda>i. sq pos ! i = EMPTY) js)) \<and>
         take (k + length (filter (\<lambda>i. sq pos ! i = EMPTY) js))
              (move (fold (move_generate_step pos) js mp)) =
           take k (move mp) @ map int (filter (\<lambda>i. sq pos ! i = EMPTY) js)"
  using assms
proof (induction js arbitrary: mp k)
  case Nil
  then show ?case by simp
next
  case (Cons j js)
  show ?case
  proof (cases "sq pos ! j = EMPTY")
    case False
    then have step: "move_generate_step pos j mp = mp"
      by (simp add: move_generate_step_def)
    from Cons.IH [of mp k] Cons.prems False show ?thesis
      by (simp add: step)
  next
    case True
    let ?mp = "mp\<lparr>move := (move mp)[k := int j], moves := int (Suc k)\<rparr>"
    from True Cons.prems have step: "move_generate_step pos j mp = ?mp"
      by (simp add: move_generate_step_def)
    from True Cons.prems have k: "k < length (move mp)"
      by simp
    have "take (Suc k) (move ?mp) = take k (move mp) @ [int j]"
      using k by (simp add: take_Suc_conv_app_nth)
    moreover from Cons.IH [of ?mp "Suc k"] Cons.prems True
    have "length (move (fold (move_generate_step pos) js ?mp)) = MOVES_MAX \<and>
         moves (fold (move_generate_step pos) js ?mp) =
           int (Suc k + length (filter (\<lambda>i. sq pos ! i = EMPTY) js)) \<and>
         take (Suc k + length (filter (\<lambda>i. sq pos ! i = EMPTY) js))
              (move (fold (move_generate_step pos) js ?mp)) =
           take (Suc k) (move ?mp) @ map int (filter (\<lambda>i. sq pos ! i = EMPTY) js)"
      by simp
    ultimately show ?thesis
      using True by (simp add: step)
  qed
qed

definition empty_squares :: "board_pos \<Rightarrow> nat list" where
  "empty_squares pos = filter (\<lambda>i. sq pos ! i = EMPTY) [0..<SQUARES_MAX]"

lemma generated_move_generate:
  "generated (move_generate pos) = map int (empty_squares pos)"
  and moves_move_generate:
  "moves (move_generate pos) = int (length (empty_squares pos))"
proof -
  let ?mp = "\<lparr>move = replicate MOVES_MAX MOVE_NONE, moves = 0\<rparr>"
  have "length (filter (\<lambda>i. sq pos ! i = EMPTY) [0..<SQUARES_MAX]) \<le> MOVES_MAX"
    using length_filter_le [of "\<lambda>i. sq pos ! i = EMPTY" "[0..<SQUARES_MAX]"]
    by (simp add: SQUARES_MAX_def MOVES_MAX_def)
  from move_generate_fold [of ?mp 0 pos "[0..<SQUARES_MAX]"] this
  show "generated (move_generate pos) = map int (empty_squares pos)"
    and "moves (move_generate pos) = int (length (empty_squares pos))"
    by (simp_all add: generated_def move_generate_def empty_squares_def)
qed

section \<open>Facts about the evaluation\<close>

lemma checkmate_lines_iff:
  "(checkmate_lines pos pc ls = 1) = (\<exists>l\<in>set ls. checkmate_line pos pc l 0 = 3)"
  "(checkmate_lines pos pc ls = 0) = (\<not> (\<exists>l\<in>set ls. checkmate_line pos pc l 0 = 3))"
  by (induction ls) auto

lemma checkmate_line3:
  "(checkmate_line pos pc [a, b, c] 0 = 3) =
     (sq pos ! nat a = pc \<and> sq pos ! nat b = pc \<and> sq pos ! nat c = pc)"
  by simp

lemma checkmate_line_winning:
  assumes "l \<in> set winning_squares"
  shows "(checkmate_line pos pc l 0 = 3) = (\<forall>s\<in>set l. sq pos ! nat s = pc)"
proof -
  from assms obtain a b c where "l = [a, b, c]"
    by (auto simp: winning_squares_def)
  then show ?thesis
    by (simp add: checkmate_line3)
qed

lemma checkmate_iff:
  "(checkmate pos = 1) =
     (\<exists>l\<in>set winning_squares.
        \<forall>s\<in>set l. sq pos ! nat s = (if color pos = WHITE then BLACK else WHITE))"
  "(checkmate pos = 0) =
     (\<not> (\<exists>l\<in>set winning_squares.
        \<forall>s\<in>set l. sq pos ! nat s = (if color pos = WHITE then BLACK else WHITE)))"
  unfolding checkmate_def Let_def checkmate_lines_iff
  by (simp_all only: checkmate_line_winning cong: bex_cong)

lemma other_mark:
  "c \<noteq> EMPTY \<Longrightarrow> (x = (if c = WHITE then BLACK else WHITE)) = (x \<noteq> EMPTY \<and> x \<noteq> c)"
  by (cases c; cases x) auto

lemma eval_line3:
  assumes "c \<noteq> EMPTY"
  shows "\<bar>eval_line \<lparr>sq = xs, color = c\<rparr> (if c = WHITE then BLACK else WHITE) [i, j, k] p - p\<bar> \<le> 1"
  using assms 
  by (cases c; cases "xs ! nat i"; cases "xs ! nat j"; cases "xs ! nat k")
     (simp_all add: eval_line_def eval_ours_def eval_square_def)

lemma fold_eval_line_bound:
  assumes "\<And>l p. l \<in> set ls \<Longrightarrow> \<bar>eval_line pos e l p - p\<bar> \<le> 1"
  shows "\<bar>fold (eval_line pos e) ls p - p\<bar> \<le> int (length ls)"
  using assms
proof (induction ls arbitrary: p)
  case Nil
  then show ?case by simp
next
  case (Cons l ls)
  have "\<bar>eval_line pos e l p - p\<bar> \<le> 1"
    by (rule Cons.prems) simp
  moreover have "\<bar>fold (eval_line pos e) ls (eval_line pos e l p) - eval_line pos e l p\<bar>
      \<le> int (length ls)"
    by (rule Cons.IH) (simp add: Cons.prems)
  ultimately show ?case by simp
qed

lemma eval_bound:
  assumes "color pos \<noteq> EMPTY"
  shows "\<bar>eval pos\<bar> \<le> 8"
proof -
  obtain xs c where pos: "pos = \<lparr>sq = xs, color = c\<rparr>"
    by (cases pos) simp
  have "\<bar>fold (eval_line pos (if c = WHITE then BLACK else WHITE)) winning_squares 0 - 0\<bar>
      \<le> int (length winning_squares)"
  proof (rule fold_eval_line_bound)
    fix l p
    assume "l \<in> set winning_squares"
    then obtain i j k where "l = [i, j, k]"
      by (auto simp: winning_squares_def)
    with assms show "\<bar>eval_line pos (if c = WHITE then BLACK else WHITE) l p - p\<bar> \<le> 1"
      using eval_line3 [of c xs i j k p] by (simp add: pos)
  qed
  moreover have "length winning_squares = 8"
    by (simp add: winning_squares_def)
  ultimately show ?thesis
    by (simp add: eval_def pos)
qed

section \<open>Facts about the search\<close>

lemma minimax_won:
  "checkmate pos \<noteq> 0 \<Longrightarrow>
     minimax pos depth = Some (pos, if color pos = WHITE then - INF_score else INF_score)"
  by (subst minimax.simps) simp

lemma minimax_full:
  "checkmate pos = 0 \<Longrightarrow> \<not> board_empty pos \<Longrightarrow> minimax pos depth = Some (pos, 0)"
  by (subst minimax.simps) simp

lemma minimax_horizon:
  "checkmate pos = 0 \<Longrightarrow> board_empty pos \<Longrightarrow>
     minimax pos 0 = Some (pos, if color pos = WHITE then - eval pos else eval pos)"
  by (subst minimax.simps) simp

definition minimax_body ::
  "int \<Rightarrow> int \<Rightarrow> board_pos \<times> int \<Rightarrow> (board_pos \<times> int) option" where
  "minimax_body depth m = (\<lambda>(pos, score). do {
      (pos, score_best) \<leftarrow> minimax (move_do pos m) (depth - 1);
      let pos = move_undo pos m;
      Some (pos, if color pos = WHITE then MAX_of score score_best
                 else MIN_of score score_best)
    })"

lemma minimax_inner:
  "checkmate pos = 0 \<Longrightarrow> board_empty pos \<Longrightarrow> depth \<noteq> 0 \<Longrightarrow>
     minimax pos depth =
       for_moves (minimax_body depth) (generated (move_generate pos))
         (pos, if color pos = WHITE then - INF_score else INF_score)"
  by (subst minimax.simps) (simp add: minimax_body_def [abs_def])

lemma for_moves_total:
  assumes "\<And>m s. \<exists>s'. body m s = Some s'"
  shows "\<exists>r. for_moves body ms s = Some r"
proof (induction ms arbitrary: s)
  case Nil
  show ?case by simp
next
  case (Cons m ms)
  from assms obtain s' where "body m s = Some s'"
    by blast
  with Cons.IH [of s'] show ?case
    by simp
qed

lemma minimax_returns_nat: "\<exists>r. minimax pos (int n) = Some r"
proof (induction n arbitrary: pos)
  case 0
  show ?case
    using minimax_won [of pos 0] minimax_full [of pos 0] minimax_horizon [of pos]
    by (cases "checkmate pos = 0"; cases "board_empty pos") auto
next
  case (Suc n)
  have body: "\<exists>s'. minimax_body (int (Suc n)) m s = Some s'" for m s
  proof -
    obtain p a where s: "s = (p, a)"
      by (cases s)
    from Suc.IH [of "move_do p m"] obtain p' v
      where "minimax (move_do p m) (int n) = Some (p', v)"
      by auto
    then show ?thesis
      by (simp add: minimax_body_def s Let_def)
  qed
  show ?case
  proof (cases "checkmate pos = 0 \<and> board_empty pos")
    case True
    then show ?thesis
      using for_moves_total [of "minimax_body (int (Suc n))", OF body]
      by (simp add: minimax_inner del: of_nat_Suc)
  next
    case False
    then show ?thesis
      using minimax_won [of pos "int (Suc n)"] minimax_full [of pos "int (Suc n)"]
      by (cases "checkmate pos = 0") auto
  qed
qed

lemma board_empty_from_iff:
  "board_empty_from pos js = (\<exists>i\<in>set js. sq pos ! i = EMPTY)"
  by (induction js) auto

lemma board_empty_iff:
  "board_empty pos = (\<exists>i<SQUARES_MAX. sq pos ! i = EMPTY)"
  by (auto simp: board_empty_def board_empty_from_iff)

lemma generated_legal:
  assumes "m \<in> set (generated (move_generate pos))"
  shows "0 \<le> m \<and> nat m < SQUARES_MAX \<and> sq pos ! nat m = EMPTY"
  using assms by (auto simp: generated_move_generate empty_squares_def)

lemma position_move_do:
  "position pos \<Longrightarrow> position (move_do pos m)"
  by (simp add: position_def move_do_def)

lemma count_list_update_less:
  assumes "i < length xs" and "xs ! i = a" and "b \<noteq> a"
  shows "count_list (xs[i := b]) a < count_list xs a"
  using assms
proof (induction xs arbitrary: i)
  case Nil
  then show ?case by simp
next
  case (Cons x xs)
  then show ?case
    by (cases i) auto
qed

lemma empties_move_do:
  assumes "position pos" and "nat m < SQUARES_MAX" and "sq pos ! nat m = EMPTY"
  shows "count_list (sq (move_do pos m)) EMPTY < count_list (sq pos) EMPTY"
  using assms count_list_update_less [of "nat m" "sq pos" EMPTY "color pos"]
  by (simp add: position_def move_do_def)

text \<open>
  The score of a call of \<^verbatim>\<open>minimax\<close> that returns, and the step of its loop once the
  score \<open>sc m\<close> of the position after move \<open>m\<close> is known.
\<close>

definition minimax_score :: "board_pos \<Rightarrow> int \<Rightarrow> int" where
  "minimax_score pos depth = (case minimax pos depth of None \<Rightarrow> 0 | Some (p, v) \<Rightarrow> v)"

definition fold_score :: "board_pos \<Rightarrow> (int \<Rightarrow> int) \<Rightarrow> int \<Rightarrow> int \<Rightarrow> int" where
  "fold_score pos sc m score =
     (if color pos = WHITE then MAX_of score (sc m) else MIN_of score (sc m))"

lemma for_moves_fold:
  assumes "\<And>m a. m \<in> set ms \<Longrightarrow> body m (pos, a) = Some (pos, h m a)"
  shows "for_moves body ms (pos, a) = Some (pos, fold h ms a)"
  using assms by (induction ms arbitrary: a) simp_all

lemma minimax_body_restores:
  assumes "color pos \<noteq> EMPTY" and "sq pos ! nat m = EMPTY"
    and "minimax (move_do pos m) (depth - 1) = Some (move_do pos m, v)"
  shows "minimax_body depth m (pos, a) = Some (pos, fold_score pos (\<lambda>_. v) m a)"
  using assms by (simp add: minimax_body_def move_undo_move_do fold_score_def)

lemma minimax_inner_fold:
  assumes "position pos" and "checkmate pos = 0" and "board_empty pos" and "depth \<noteq> 0"
    and "\<And>m. m \<in> set (generated (move_generate pos)) \<Longrightarrow>
           minimax (move_do pos m) (depth - 1) = Some (move_do pos m, sc m)"
  shows "minimax pos depth =
     Some (pos, fold (fold_score pos sc) (generated (move_generate pos))
                  (if color pos = WHITE then - INF_score else INF_score))"
proof -
  have "for_moves (minimax_body depth) (generated (move_generate pos)) (pos, a) =
      Some (pos, fold (fold_score pos sc) (generated (move_generate pos)) a)" for a
  proof (rule for_moves_fold)
    fix m a
    assume m: "m \<in> set (generated (move_generate pos))"
    with assms(1) generated_legal [OF m] assms(5) [OF m]
    show "minimax_body depth m (pos, a) = Some (pos, fold_score pos sc m a)"
      using minimax_body_restores [of pos m depth "sc m" a]
      by (simp add: position_def fold_score_def)
  qed
  with assms show ?thesis
    by (simp add: minimax_inner)
qed

lemma fold_score_range:
  assumes "\<And>m. m \<in> set ms \<Longrightarrow> - INF_score \<le> sc m \<and> sc m \<le> INF_score"
    and "- INF_score \<le> a \<and> a \<le> INF_score"
  shows "- INF_score \<le> fold (fold_score pos sc) ms a \<and>
         fold (fold_score pos sc) ms a \<le> INF_score"
  using assms
proof (induction ms arbitrary: a)
  case Nil
  then show ?case by simp
next
  case (Cons m ms)
  have "- INF_score \<le> fold_score pos sc m a \<and> fold_score pos sc m a \<le> INF_score"
    using Cons.prems(1) [of m] Cons.prems(2)
    by (simp add: fold_score_def MAX_of_def MIN_of_def)
  with Cons.IH [of "fold_score pos sc m a"] Cons.prems(1) show ?case
    by simp
qed

lemma position_minimax:
  assumes "position pos"
  shows "minimax pos depth = Some (pos, minimax_score pos depth) \<and>
         - INF_score \<le> minimax_score pos depth \<and> minimax_score pos depth \<le> INF_score"
  using assms
proof (induction "count_list (sq pos) EMPTY" arbitrary: pos depth rule: less_induct)
  case less
  note pos = \<open>position pos\<close>
  consider (won) "checkmate pos \<noteq> 0"
    | (full) "checkmate pos = 0" "\<not> board_empty pos"
    | (horizon) "checkmate pos = 0" "board_empty pos" "depth = 0"
    | (inner) "checkmate pos = 0" "board_empty pos" "depth \<noteq> 0"
    by blast
  then show ?case
  proof cases
    case won
    then show ?thesis
      by (simp add: minimax_score_def minimax_won INF_score_def)
  next
    case full
    then show ?thesis
      by (simp add: minimax_score_def minimax_full INF_score_def)
  next
    case horizon
    moreover from pos have "\<bar>eval pos\<bar> \<le> 8"
      by (simp add: eval_bound position_def)
    ultimately show ?thesis
      by (auto simp: minimax_score_def minimax_horizon INF_score_def)
  next
    case inner
    let ?ms = "generated (move_generate pos)"
    let ?sc = "\<lambda>m. minimax_score (move_do pos m) (depth - 1)"
    have child: "minimax (move_do pos m) (depth - 1) = Some (move_do pos m, ?sc m) \<and>
        - INF_score \<le> ?sc m \<and> ?sc m \<le> INF_score" if "m \<in> set ?ms" for m
    proof (rule less.hyps)
      from generated_legal [OF that] pos
      show "count_list (sq (move_do pos m)) EMPTY < count_list (sq pos) EMPTY"
        by (simp add: empties_move_do)
      from pos show "position (move_do pos m)"
        by (rule position_move_do)
    qed
    have "minimax pos depth =
        Some (pos, fold (fold_score pos ?sc) ?ms (if color pos = WHITE then - INF_score else INF_score))"
      using pos inner child by (intro minimax_inner_fold) simp_all
    moreover have "- INF_score \<le> fold (fold_score pos ?sc) ?ms (if color pos = WHITE then - INF_score else INF_score) \<and>
        fold (fold_score pos ?sc) ?ms (if color pos = WHITE then - INF_score else INF_score) \<le> INF_score"
      using child by (intro fold_score_range) (simp_all add: INF_score_def)
    ultimately show ?thesis
      by (simp add: minimax_score_def)
  qed
qed

lemma minimax_score_inner:
  assumes "position pos" and "checkmate pos = 0" and "board_empty pos" and "depth \<noteq> 0"
  shows "minimax_score pos depth =
     fold (fold_score pos (\<lambda>m. minimax_score (move_do pos m) (depth - 1)))
       (generated (move_generate pos)) (if color pos = WHITE then - INF_score else INF_score)"
proof -
  have "minimax (move_do pos m) (depth - 1) =
      Some (move_do pos m, minimax_score (move_do pos m) (depth - 1))" for m
    using position_minimax [OF position_move_do [OF assms(1)]]
    by simp
  with assms have "minimax pos depth =
     Some (pos, fold (fold_score pos (\<lambda>m. minimax_score (move_do pos m) (depth - 1)))
       (generated (move_generate pos)) (if color pos = WHITE then - INF_score else INF_score))"
    by (intro minimax_inner_fold) simp_all
  then show ?thesis
    by (simp add: minimax_score_def)
qed

section \<open>Searching with a bound\<close>

text \<open>
  Depth 9 from the empty board visits more than half a million boards, too many to
  unfold \<^verbatim>\<open>minimax\<close> on every one of them. The question whether the score is at least
  \<open>k\<close> needs far fewer: for the maximising side one move that reaches \<open>k\<close> is enough,
  and for the minimising side the first move that stays below \<open>k\<close> settles it.
  \<open>at_least k pos n\<close> follows the case distinction of \<^verbatim>\<open>minimax\<close> and answers that
  question; \<open>at_least_iff\<close> shows that it agrees with the score \<^verbatim>\<open>minimax\<close> returns.
\<close>

fun exists_move :: "(int \<Rightarrow> bool) \<Rightarrow> int list \<Rightarrow> bool" where
  "exists_move P [] = False"
| "exists_move P (m # ms) = (if P m then True else exists_move P ms)"

fun all_moves :: "(int \<Rightarrow> bool) \<Rightarrow> int list \<Rightarrow> bool" where
  "all_moves P [] = True"
| "all_moves P (m # ms) = (if P m then all_moves P ms else False)"

lemma exists_move_iff: "exists_move P ms = (\<exists>m\<in>set ms. P m)"
  by (induction ms) auto

lemma all_moves_iff: "all_moves P ms = (\<forall>m\<in>set ms. P m)"
  by (induction ms) auto

lemma exists_move_cong [fundef_cong]:
  "ms = ns \<Longrightarrow> (\<And>m. m \<in> set ns \<Longrightarrow> P m = Q m) \<Longrightarrow> exists_move P ms = exists_move Q ns"
  by (simp add: exists_move_iff)

lemma all_moves_cong [fundef_cong]:
  "ms = ns \<Longrightarrow> (\<And>m. m \<in> set ns \<Longrightarrow> P m = Q m) \<Longrightarrow> all_moves P ms = all_moves Q ns"
  by (simp add: all_moves_iff)

fun at_least :: "int \<Rightarrow> board_pos \<Rightarrow> nat \<Rightarrow> bool" where
  "at_least k pos 0 =
     (if checkmate pos \<noteq> 0 then k \<le> (if color pos = WHITE then - INF_score else INF_score)
      else if \<not> board_empty pos then k \<le> 0
      else k \<le> (if color pos = WHITE then - eval pos else eval pos))"
| "at_least k pos (Suc n) =
     (if checkmate pos \<noteq> 0 then k \<le> (if color pos = WHITE then - INF_score else INF_score)
      else if \<not> board_empty pos then k \<le> 0
      else if color pos = WHITE
        then (if k \<le> - INF_score then True
              else exists_move (\<lambda>m. at_least k (move_do pos m) n) (generated (move_generate pos)))
        else (if k \<le> INF_score
              then all_moves (\<lambda>m. at_least k (move_do pos m) n) (generated (move_generate pos))
              else False))"

lemma fold_MAX_of_ge:
  "(k \<le> fold (\<lambda>m a. MAX_of a (sc m)) ms a) = (k \<le> a \<or> (\<exists>m\<in>set ms. k \<le> sc m))"
  by (induction ms arbitrary: a) (auto simp: MAX_of_def)

lemma fold_MIN_of_ge:
  "(k \<le> fold (\<lambda>m a. MIN_of a (sc m)) ms a) = (k \<le> a \<and> (\<forall>m\<in>set ms. k \<le> sc m))"
  by (induction ms arbitrary: a) (auto simp: MIN_of_def)

lemma fold_score_WHITE: "color pos = WHITE \<Longrightarrow> fold_score pos sc = (\<lambda>m a. MAX_of a (sc m))"
  by (simp add: fold_score_def fun_eq_iff)

lemma fold_score_not_WHITE: "color pos \<noteq> WHITE \<Longrightarrow> fold_score pos sc = (\<lambda>m a. MIN_of a (sc m))"
  by (simp add: fold_score_def fun_eq_iff)

lemma minimax_score_won:
  "checkmate pos \<noteq> 0 \<Longrightarrow>
     minimax_score pos depth = (if color pos = WHITE then - INF_score else INF_score)"
  by (simp add: minimax_score_def minimax_won)

lemma minimax_score_full:
  "checkmate pos = 0 \<Longrightarrow> \<not> board_empty pos \<Longrightarrow> minimax_score pos depth = 0"
  by (simp add: minimax_score_def minimax_full)

lemma minimax_score_horizon:
  "checkmate pos = 0 \<Longrightarrow> board_empty pos \<Longrightarrow>
     minimax_score pos 0 = (if color pos = WHITE then - eval pos else eval pos)"
  by (simp add: minimax_score_def minimax_horizon)

lemma at_least_iff:
  assumes "position pos"
  shows "at_least k pos n = (k \<le> minimax_score pos (int n))"
  using assms
proof (induction n arbitrary: pos)
  case 0
  then show ?case
    by (simp add: minimax_score_won minimax_score_full minimax_score_horizon)
next
  case (Suc n)
  show ?case
  proof (cases "checkmate pos = 0 \<and> board_empty pos")
    case False
    then show ?thesis
      by (auto simp: minimax_score_won minimax_score_full simp del: of_nat_Suc)
  next
    case True
    have child: "at_least k (move_do pos m) n = (k \<le> minimax_score (move_do pos m) (int n))"
      for m
      by (rule Suc.IH) (rule position_move_do [OF Suc.prems])
    have "minimax_score pos (int (Suc n)) =
        fold (fold_score pos (\<lambda>m. minimax_score (move_do pos m) (int n)))
          (generated (move_generate pos)) (if color pos = WHITE then - INF_score else INF_score)"
      using minimax_score_inner [of pos "int (Suc n)"] Suc.prems True by simp
    then show ?thesis
      using True
      by (simp add: fold_score_WHITE fold_score_not_WHITE fold_MAX_of_ge fold_MIN_of_ge
          exists_move_iff all_moves_iff child del: of_nat_Suc)
  qed
qed

lemma start_at_least_0: "at_least 0 start 9"
  by code_simp

lemma start_not_at_least_1: "\<not> at_least 1 start 9"
  by code_simp

section \<open>Facts about the choice of a move\<close>

text \<open>
  The body of the loop of \<^verbatim>\<open>move_pick\<close>, and what one round of it does to
  \<^verbatim>\<open>move_picked\<close> and \<^verbatim>\<open>score_current\<close> when the candidate's score is \<open>sc m\<close>.
\<close>

definition pick_step :: "board_pos \<Rightarrow> (int \<Rightarrow> int) \<Rightarrow> int \<Rightarrow> int \<times> int \<Rightarrow> int \<times> int" where
  "pick_step pos sc m = (\<lambda>(move_picked, score_current).
     if color pos = WHITE
     then (if sc m > score_current then (m, sc m) else (move_picked, score_current))
     else (if sc m < score_current then (m, sc m) else (move_picked, score_current)))"

definition pick_body ::
  "int \<Rightarrow> int \<Rightarrow> board_pos \<times> int \<times> int \<Rightarrow> (board_pos \<times> int \<times> int) option" where
  "pick_body depth m = (\<lambda>(pos, move_picked, score_current). do {
     (pos, score_of_candidate_move) \<leftarrow> minimax (move_do pos m) depth;
     let pos = move_undo pos m;
     Some (if color pos = WHITE
           then (if score_of_candidate_move > score_current
                 then (pos, m, score_of_candidate_move)
                 else (pos, move_picked, score_current))
           else (if score_of_candidate_move < score_current
                 then (pos, m, score_of_candidate_move)
                 else (pos, move_picked, score_current)))
   })"

lemma move_pick_unfold:
  "move_pick pos depth =
     do {
       (pos, move_picked, score_current) \<leftarrow>
         for_moves (pick_body depth) (generated (move_generate pos))
           (pos, move (move_generate pos) ! 0, if color pos = WHITE then - INF_score else INF_score);
       Some (if \<not> move_picked < int SQUARES_MAX then Inl Assertion_failed
             else if move_picked < 0 then Inl Read_outside_array
             else if sq pos ! nat move_picked \<noteq> EMPTY then Inl Assertion_failed
             else Inr (pos, move_picked))
     }"
  by (simp add: move_pick_def pick_body_def [abs_def] Let_def)

lemma pick_body_restores:
  assumes "position pos" and "m \<in> set (generated (move_generate pos))"
  shows "pick_body depth m (pos, a) =
     Some (pos, pick_step pos (\<lambda>m. minimax_score (move_do pos m) depth) m a)"
proof -
  from assms have "move_undo (move_do pos m) m = pos"
    using generated_legal [OF assms(2)] by (simp add: move_undo_move_do position_def)
  moreover have "minimax (move_do pos m) depth =
      Some (move_do pos m, minimax_score (move_do pos m) depth)"
    using position_minimax [OF position_move_do [OF assms(1)]] by simp
  ultimately show ?thesis
    by (cases a) (simp add: pick_body_def pick_step_def)
qed

lemma for_moves_pick_body:
  assumes "position pos"
  shows "for_moves (pick_body depth) (generated (move_generate pos)) (pos, a) =
     Some (pos, fold (pick_step pos (\<lambda>m. minimax_score (move_do pos m) depth))
                  (generated (move_generate pos)) a)"
  using assms by (intro for_moves_fold pick_body_restores)

lemma pick_step_WHITE:
  assumes "color pos = WHITE"
    and "fold (pick_step pos sc) ms (m0, s0) = (mp, s)"
  shows "(\<forall>i<length ms. sc (ms ! i) \<le> s) \<and>
         (s = s0 \<and> mp = m0 \<or>
          (\<exists>k<length ms. mp = ms ! k \<and> s = sc (ms ! k) \<and> s0 < s \<and>
             (\<forall>i<k. sc (ms ! i) < s)))"
  using assms(2)
proof (induction ms arbitrary: mp s rule: rev_induct)
  case Nil
  then show ?case by simp
next
  case (snoc m ms)
  obtain mp1 s1 where f: "fold (pick_step pos sc) ms (m0, s0) = (mp1, s1)"
    by (cases "fold (pick_step pos sc) ms (m0, s0)")
  note IH = snoc.IH [OF f]
  from snoc.prems f have "pick_step pos sc m (mp1, s1) = (mp, s)"
    by simp
  with assms(1) have step: "(mp, s) = (if sc m > s1 then (m, sc m) else (mp1, s1))"
    by (simp add: pick_step_def)
  show ?case
  proof (cases "sc m > s1")
    case True
    with step have r: "mp = m" "s = sc m"
      by simp_all
    have "\<forall>i<length (ms @ [m]). sc ((ms @ [m]) ! i) \<le> s"
      using IH True r by (auto simp: nth_append less_Suc_eq)
    moreover have "\<exists>k<length (ms @ [m]). mp = (ms @ [m]) ! k \<and> s = sc ((ms @ [m]) ! k) \<and>
        s0 < s \<and> (\<forall>i<k. sc ((ms @ [m]) ! i) < s)"
    proof (intro exI [of _ "length ms"] conjI allI impI)
      show "s0 < s"
        using IH True r by auto
      show "sc ((ms @ [m]) ! i) < s" if "i < length ms" for i
        using IH True r that by (auto simp: nth_append)
    qed (simp_all add: r)
    ultimately show ?thesis
      by blast
  next
    case False
    with step have r: "mp = mp1" "s = s1"
      by simp_all
    have "\<forall>i<length (ms @ [m]). sc ((ms @ [m]) ! i) \<le> s"
      using IH False r by (auto simp: nth_append less_Suc_eq)
    moreover have "s = s0 \<and> mp = m0 \<or>
        (\<exists>k<length (ms @ [m]). mp = (ms @ [m]) ! k \<and> s = sc ((ms @ [m]) ! k) \<and>
           s0 < s \<and> (\<forall>i<k. sc ((ms @ [m]) ! i) < s))"
    proof (cases "s = s0 \<and> mp = m0")
      case True
      then show ?thesis by simp
    next
      case False
      with IH r obtain k where k: "k < length ms" "mp = ms ! k" "s = sc (ms ! k)" "s0 < s"
        "\<forall>i<k. sc (ms ! i) < s"
        by auto
      then have "k < length (ms @ [m]) \<and> mp = (ms @ [m]) ! k \<and> s = sc ((ms @ [m]) ! k) \<and>
           s0 < s \<and> (\<forall>i<k. sc ((ms @ [m]) ! i) < s)"
        by (auto simp: nth_append)
      then show ?thesis
        by blast
    qed
    ultimately show ?thesis
      by blast
  qed
qed

lemma pick_step_not_WHITE:
  assumes "color pos \<noteq> WHITE"
    and "fold (pick_step pos sc) ms (m0, s0) = (mp, s)"
  shows "(\<forall>i<length ms. s \<le> sc (ms ! i)) \<and>
         (s = s0 \<and> mp = m0 \<or>
          (\<exists>k<length ms. mp = ms ! k \<and> s = sc (ms ! k) \<and> s < s0 \<and>
             (\<forall>i<k. s < sc (ms ! i))))"
  using assms(2)
proof (induction ms arbitrary: mp s rule: rev_induct)
  case Nil
  then show ?case by simp
next
  case (snoc m ms)
  obtain mp1 s1 where f: "fold (pick_step pos sc) ms (m0, s0) = (mp1, s1)"
    by (cases "fold (pick_step pos sc) ms (m0, s0)")
  note IH = snoc.IH [OF f]
  from snoc.prems f have "pick_step pos sc m (mp1, s1) = (mp, s)"
    by simp
  with assms(1) have step: "(mp, s) = (if sc m < s1 then (m, sc m) else (mp1, s1))"
    by (simp add: pick_step_def)
  show ?case
  proof (cases "sc m < s1")
    case True
    with step have r: "mp = m" "s = sc m"
      by simp_all
    have "\<forall>i<length (ms @ [m]). s \<le> sc ((ms @ [m]) ! i)"
      using IH True r by (auto simp: nth_append less_Suc_eq)
    moreover have "\<exists>k<length (ms @ [m]). mp = (ms @ [m]) ! k \<and> s = sc ((ms @ [m]) ! k) \<and>
        s < s0 \<and> (\<forall>i<k. s < sc ((ms @ [m]) ! i))"
    proof (intro exI [of _ "length ms"] conjI allI impI)
      show "s < s0"
        using IH True r by auto
      show "s < sc ((ms @ [m]) ! i)" if "i < length ms" for i
        using IH True r that by (auto simp: nth_append)
    qed (simp_all add: r)
    ultimately show ?thesis
      by blast
  next
    case False
    with step have r: "mp = mp1" "s = s1"
      by simp_all
    have "\<forall>i<length (ms @ [m]). s \<le> sc ((ms @ [m]) ! i)"
      using IH False r by (auto simp: nth_append less_Suc_eq)
    moreover have "s = s0 \<and> mp = m0 \<or>
        (\<exists>k<length (ms @ [m]). mp = (ms @ [m]) ! k \<and> s = sc ((ms @ [m]) ! k) \<and>
           s < s0 \<and> (\<forall>i<k. s < sc ((ms @ [m]) ! i)))"
    proof (cases "s = s0 \<and> mp = m0")
      case True
      then show ?thesis by simp
    next
      case False
      with IH r obtain k where k: "k < length ms" "mp = ms ! k" "s = sc (ms ! k)" "s < s0"
        "\<forall>i<k. s < sc (ms ! i)"
        by auto
      then have "k < length (ms @ [m]) \<and> mp = (ms @ [m]) ! k \<and> s = sc ((ms @ [m]) ! k) \<and>
           s < s0 \<and> (\<forall>i<k. s < sc ((ms @ [m]) ! i))"
        by (auto simp: nth_append)
      then show ?thesis
        by blast
    qed
    ultimately show ?thesis
      by blast
  qed
qed

lemma generated_nonempty:
  assumes "i < 9" and "sq pos ! i = EMPTY"
  shows "generated (move_generate pos) \<noteq> []"
proof -
  from assms have "i \<in> set (empty_squares pos)"
    by (simp add: empty_squares_def SQUARES_MAX_def)
  then show ?thesis
    by (auto simp: generated_move_generate)
qed

lemma move_generate_first:
  assumes "generated (move_generate pos) \<noteq> []"
  shows "move (move_generate pos) ! 0 = generated (move_generate pos) ! 0"
  using assms by (cases "nat (moves (move_generate pos))") (simp_all add: generated_def)

lemma move_pick_fold:
  assumes "position pos"
    and "fold (pick_step pos (\<lambda>m. minimax_score (move_do pos m) depth))
           (generated (move_generate pos))
           (move (move_generate pos) ! 0, if color pos = WHITE then - INF_score else INF_score) =
         (mp, s)"
    and "mp \<in> set (generated (move_generate pos))"
  shows "move_pick pos depth = Some (Inr (pos, mp))"
proof -
  from generated_legal [OF assms(3)]
  have "mp < int SQUARES_MAX" and "\<not> mp < 0" and "sq pos ! nat mp = EMPTY"
    by auto
  with assms(2) show ?thesis
    by (simp add: move_pick_unfold for_moves_pick_body [OF assms(1)])
qed

lemma move_pick_index:
  fixes pos :: board_pos and depth :: int
  defines "ms \<equiv> generated (move_generate pos)"
  defines "sc \<equiv> \<lambda>i. minimax_score (move_do pos (ms ! i)) depth"
  assumes pos: "position pos" and ms: "ms \<noteq> []"
  shows "\<exists>k<length ms.
           move_pick pos depth = Some (Inr (pos, ms ! k)) \<and>
           (color pos = WHITE \<longrightarrow>
              (\<forall>i<length ms. sc i \<le> sc k) \<and> (\<forall>i<k. sc i < sc k) \<and>
              ((\<forall>i<length ms. \<not> sc i > - INF_score) \<longrightarrow> k = 0)) \<and>
           (color pos = BLACK \<longrightarrow>
              (\<forall>i<length ms. sc k \<le> sc i) \<and> (\<forall>i<k. sc k < sc i) \<and>
              ((\<forall>i<length ms. \<not> sc i < INF_score) \<longrightarrow> k = 0))"
proof -
  let ?sc = "\<lambda>m. minimax_score (move_do pos m) depth"
  let ?s0 = "if color pos = WHITE then - INF_score else INF_score"
  obtain mp s where f: "fold (pick_step pos ?sc) ms (move (move_generate pos) ! 0, ?s0) = (mp, s)"
    by (cases "fold (pick_step pos ?sc) ms (move (move_generate pos) ! 0, ?s0)")
  have first: "move (move_generate pos) ! 0 = ms ! 0"
    using ms unfolding ms_def by (rule move_generate_first)
  have range: "- INF_score \<le> sc i \<and> sc i \<le> INF_score" for i
    using position_minimax [OF position_move_do [OF pos], of "ms ! i" depth]
    by (simp add: sc_def)
  have pick: "move_pick pos depth = Some (Inr (pos, ms ! k))" if "k < length ms" "mp = ms ! k" for k
  proof -
    from that have "mp \<in> set (generated (move_generate pos))"
      by (simp add: ms_def)
    with f show ?thesis
      unfolding \<open>mp = ms ! k\<close> ms_def by (rule move_pick_fold [OF pos])
  qed
  from ms have len: "0 < length ms"
    by simp
  show ?thesis
  proof (cases "color pos = WHITE")
    case True
    from pick_step_WHITE [OF True f]
    have all: "\<forall>i<length ms. sc i \<le> s"
      and alt: "s = - INF_score \<and> mp = ms ! 0 \<or>
          (\<exists>k<length ms. mp = ms ! k \<and> s = sc k \<and> - INF_score < s \<and> (\<forall>i<k. sc i < s))"
      by (simp_all add: sc_def True first)
    from alt show ?thesis
    proof
      assume a: "s = - INF_score \<and> mp = ms ! 0"
      with all range have "sc i = - INF_score" if "i < length ms" for i
        using that by (simp add: order_antisym)
      with a len pick [of 0] True show ?thesis
        by (intro exI [of _ 0]) simp
    next
      assume "\<exists>k<length ms. mp = ms ! k \<and> s = sc k \<and> - INF_score < s \<and> (\<forall>i<k. sc i < s)"
      then obtain k where k: "k < length ms" "mp = ms ! k" "s = sc k" "- INF_score < s"
        "\<forall>i<k. sc i < s"
        by blast
      with all pick [of k] True show ?thesis
        by (intro exI [of _ k]) auto
    qed
  next
    case False
    from pick_step_not_WHITE [OF False f]
    have all: "\<forall>i<length ms. s \<le> sc i"
      and alt: "s = INF_score \<and> mp = ms ! 0 \<or>
          (\<exists>k<length ms. mp = ms ! k \<and> s = sc k \<and> s < INF_score \<and> (\<forall>i<k. s < sc i))"
      by (simp_all add: sc_def False first)
    from alt show ?thesis
    proof
      assume a: "s = INF_score \<and> mp = ms ! 0"
      with all range have "sc i = INF_score" if "i < length ms" for i
        using that by (simp add: order_antisym)
      with a len pick [of 0] False show ?thesis
        by (intro exI [of _ 0]) simp
    next
      assume "\<exists>k<length ms. mp = ms ! k \<and> s = sc k \<and> s < INF_score \<and> (\<forall>i<k. s < sc i)"
      then obtain k where k: "k < length ms" "mp = ms ! k" "s = sc k" "s < INF_score"
        "\<forall>i<k. s < sc i"
        by blast
      with all pick [of k] False show ?thesis
        by (intro exI [of _ k]) auto
    qed
  qed
qed

section \<open>The claims\<close>

subsection \<open>C1: the score at the search horizon\<close>

text \<open>
  A board used as an example below: White holds squares 0 and 1, Black holds 3 and 4, and
  White is to move. Nobody has won, four squares are taken, and \<^verbatim>\<open>eval\<close> gives 1
  (the line 0, 1, 2 has two white squares and an empty one).
\<close>

definition horizon_board :: board_pos where
  "horizon_board = \<lparr>sq = [WHITE, WHITE, EMPTY, BLACK, BLACK, EMPTY, EMPTY, EMPTY, EMPTY],
                    color = WHITE\<rparr>"

text \<open>
  C1 as it is stated says that at depth 0, on a board that is neither won nor full,
  \<^verbatim>\<open>minimax\<close> returns \<^verbatim>\<open>eval\<close> when White is to move. On the example board White is to
  move, \<^verbatim>\<open>eval\<close> is 1 and \<^verbatim>\<open>minimax\<close> returns \<open>- 1\<close>.
\<close>

theorem minimax_horizon_sign_counterexample:
  "position horizon_board \<and> checkmate horizon_board = 0 \<and> sq horizon_board ! 2 = EMPTY \<and>
   color horizon_board = WHITE \<and> eval horizon_board = 1 \<and>
   minimax horizon_board 0 = Some (horizon_board, - 1) \<and>
   minimax horizon_board 0 \<noteq> Some (horizon_board, eval horizon_board)"
  by code_simp

text \<open>
  C1, amended: for every board that is neither won nor full, \<^verbatim>\<open>minimax\<close> at depth 0
  returns the board unchanged together with \<open>- eval\<close> when White is to move and \<open>eval\<close>
  when Black is to move, where \<^verbatim>\<open>eval\<close> is computed for the side to move. This is the
  line \<^verbatim>\<open>return ((pos->color == WHITE) ? -score : score)\<close> and the comment above it.
\<close>

theorem minimax_horizon_sign:
  assumes "checkmate pos = 0" and "\<exists>i<9. sq pos ! i = EMPTY"
  shows "minimax pos 0 = Some (pos, if color pos = WHITE then - eval pos else eval pos)"
  using assms by (simp add: minimax_horizon board_empty_iff SQUARES_MAX_def)

theorem minimax_horizon_sign_witness:
  "checkmate horizon_board = 0 \<and> (\<exists>i<9. sq horizon_board ! i = EMPTY) \<and>
   minimax horizon_board 0 = Some (horizon_board, - 1)"
proof -
  have won: "checkmate horizon_board = 0"
    by code_simp
  have empty: "\<exists>i<9. sq horizon_board ! i = EMPTY"
    by (intro exI [of _ 2]) (simp add: horizon_board_def)
  have "(if color horizon_board = WHITE then - eval horizon_board else eval horizon_board) = - 1"
    by code_simp
  with minimax_horizon_sign [OF won empty] won empty show ?thesis
    by simp
qed

subsection \<open>C2: the empty board at depth 9\<close>

text \<open>
  C2: \<^verbatim>\<open>minimax\<close> on the empty board with White to move and depth 9 returns the score 0
  (and leaves the board as it was).
\<close>

theorem minimax_start_draw: "minimax start 9 = Some (start, 0)"
proof -
  have pos: "position start"
    by (simp add: position_def start_def SQUARES_MAX_def)
  have "0 \<le> minimax_score start (int 9)"
    using at_least_iff [OF pos, of 0 9] start_at_least_0 by simp
  moreover have "\<not> 1 \<le> minimax_score start (int 9)"
    using at_least_iff [OF pos, of 1 9] start_not_at_least_1 by simp
  ultimately have "minimax_score start 9 = 0"
    by simp
  with position_minimax [OF pos, of 9] show ?thesis
    by simp
qed

subsection \<open>C3: won positions\<close>

definition won_board :: board_pos where
  "won_board = \<lparr>sq = [WHITE, WHITE, WHITE, BLACK, BLACK, EMPTY, EMPTY, EMPTY, EMPTY],
                color = BLACK\<rparr>"

text \<open>
  C3: for every position, \<^verbatim>\<open>checkmate\<close> returns 1 if one of the eight lines
  0-1-2, 3-4-5, 6-7-8, 0-3-6, 1-4-7, 2-5-8, 0-4-8, 2-4-6 has all three squares taken by
  the mark that is not the colour to move, and 0 otherwise.
\<close>

theorem checkmate_iff_line:
  assumes "position pos"
  shows "checkmate pos =
    (if \<exists>l\<in>set [[0, 1, 2], [3, 4, 5], [6, 7, 8], [0, 3, 6], [1, 4, 7], [2, 5, 8],
                    [0, 4, 8], [2, 4, 6]].
          \<forall>s\<in>set l. sq pos ! s \<noteq> EMPTY \<and> sq pos ! s \<noteq> color pos
     then 1 else 0)"
proof -
  let ?P = "\<lambda>s. sq pos ! s \<noteq> EMPTY \<and> sq pos ! s \<noteq> color pos"
  from assms have c: "color pos \<noteq> EMPTY"
    by (simp add: position_def)
  have lines: "map (map nat) winning_squares =
      [[0, 1, 2], [3, 4, 5], [6, 7, 8], [0, 3, 6], [1, 4, 7], [2, 5, 8], [0, 4, 8], [2, 4, 6]]"
    by (simp add: winning_squares_def)
  have "(\<exists>l\<in>set winning_squares.
          \<forall>s\<in>set l. sq pos ! nat s = (if color pos = WHITE then BLACK else WHITE)) =
        (\<exists>l\<in>set winning_squares. \<forall>s\<in>set l. ?P (nat s))"
    by (simp only: other_mark [OF c])
  also have "\<dots> = (\<exists>l\<in>set (map (map nat) winning_squares). \<forall>s\<in>set l. ?P s)"
    by simp
  finally have "(\<exists>l\<in>set winning_squares.
          \<forall>s\<in>set l. sq pos ! nat s = (if color pos = WHITE then BLACK else WHITE)) =
        (\<exists>l\<in>set [[0, 1, 2], [3, 4, 5], [6, 7, 8], [0, 3, 6], [1, 4, 7], [2, 5, 8],
                    [0, 4, 8], [2, 4, 6]]. \<forall>s\<in>set l. ?P s)"
    by (simp only: lines)
  then show ?thesis
    using checkmate_iff [of pos] by (simp only: split: if_split) blast
qed

theorem checkmate_iff_line_witness:
  "position won_board \<and> checkmate won_board = 1"
proof -
  have pos: "position won_board"
    by (simp add: position_def won_board_def SQUARES_MAX_def)
  from checkmate_iff_line [OF pos] have "checkmate won_board = 1"
    by (simp add: won_board_def)
  with pos show ?thesis
    by simp
qed

subsection \<open>C4: the generated moves\<close>

lemma length_filter_nth:
  "length (filter (\<lambda>i. xs ! i = a) [0..<length xs]) = count_list xs a"
proof -
  have "length (filter (\<lambda>i. xs ! i = a) [0..<length xs]) =
      length (filter (\<lambda>x. x = a) (map ((!) xs) [0..<length xs]))"
    by (simp add: filter_map comp_def)
  also have "\<dots> = length (filter (\<lambda>x. x = a) xs)"
    by (simp only: map_nth)
  also have "\<dots> = count_list xs a"
    by (induction xs) simp_all
  finally show ?thesis .
qed

lemma count_list_squares:
  "count_list xs WHITE + count_list xs BLACK + count_list xs EMPTY = length xs"
proof (induction xs)
  case Nil
  show ?case by simp
next
  case (Cons x xs)
  then show ?case by (cases x) simp_all
qed

lemma length_empty_squares:
  assumes "length (sq pos) = SQUARES_MAX"
  shows "length (empty_squares pos) = count_list (sq pos) EMPTY"
  using length_filter_nth [of "sq pos" EMPTY] assms by (simp add: empty_squares_def)

lemma sorted_empty_squares: "sorted_wrt (<) (map int (empty_squares pos))"
proof -
  have "sorted_wrt (<) (empty_squares pos)"
    unfolding empty_squares_def by (rule sorted_wrt_filter) simp
  then show ?thesis
    by (simp add: sorted_wrt_map)
qed

text \<open>
  C4: for every position, the moves that \<^verbatim>\<open>move_generate\<close> produces (the first
  \<^verbatim>\<open>mp->moves\<close> entries of \<^verbatim>\<open>mp->move\<close>) are exactly the indices 0 to 8 of the empty
  squares, in strictly ascending order, and there are 9 minus the number of white and
  black squares of them.
\<close>

theorem move_generate_empty_squares:
  assumes "position pos"
  shows "generated (move_generate pos) = map int (filter (\<lambda>i. sq pos ! i = EMPTY) [0..<9]) \<and>
         sorted_wrt (<) (generated (move_generate pos)) \<and>
         set (generated (move_generate pos)) = {int i |i. i < 9 \<and> sq pos ! i = EMPTY} \<and>
         moves (move_generate pos) = int (length (generated (move_generate pos))) \<and>
         length (generated (move_generate pos)) =
           9 - (count_list (sq pos) WHITE + count_list (sq pos) BLACK)"
proof -
  from assms have len: "length (sq pos) = 9"
    by (simp add: position_def SQUARES_MAX_def)
  have "length (empty_squares pos) = count_list (sq pos) EMPTY"
    using len by (simp add: length_empty_squares SQUARES_MAX_def)
  with count_list_squares [of "sq pos"] len
  have "length (empty_squares pos) = 9 - (count_list (sq pos) WHITE + count_list (sq pos) BLACK)"
    by simp
  moreover have "set (map int (empty_squares pos)) = {int i |i. i < 9 \<and> sq pos ! i = EMPTY}"
    by (auto simp: empty_squares_def SQUARES_MAX_def)
  moreover have "empty_squares pos = filter (\<lambda>i. sq pos ! i = EMPTY) [0..<9]"
    by (simp add: empty_squares_def SQUARES_MAX_def)
  ultimately show ?thesis
    using sorted_empty_squares [of pos]
    by (simp only: generated_move_generate moves_move_generate length_map)
qed

theorem move_generate_empty_squares_witness:
  "position horizon_board \<and> generated (move_generate horizon_board) = [2, 5, 6, 7, 8] \<and>
   moves (move_generate horizon_board) = 5 \<and>
   count_list (sq horizon_board) WHITE + count_list (sq horizon_board) BLACK = 4"
proof -
  have pos: "position horizon_board"
    by (simp add: position_def horizon_board_def SQUARES_MAX_def)
  have "filter (\<lambda>i. sq horizon_board ! i = EMPTY) [0..<9] = [2, 5, 6, 7, 8]"
    by code_simp
  with move_generate_empty_squares [OF pos] pos show ?thesis
    by (simp add: horizon_board_def)
qed

subsection \<open>C5: taking a move back\<close>

text \<open>
  C5: for every position and every move 0 to 8 whose square is empty, \<^verbatim>\<open>move_do\<close>
  followed by \<^verbatim>\<open>move_undo\<close> of the same move gives back the position, squares and colour
  to move.
\<close>

theorem move_do_move_undo_restores:
  assumes "position pos" and "0 \<le> m" and "m < 9" and "sq pos ! nat m = EMPTY"
  shows "move_undo (move_do pos m) m = pos"
  using assms by (simp add: move_undo_move_do position_def)

theorem move_do_move_undo_restores_witness:
  "position horizon_board \<and> (0::int) \<le> 5 \<and> (5::int) < 9 \<and> sq horizon_board ! nat 5 = EMPTY \<and>
   move_do horizon_board 5 =
     \<lparr>sq = [WHITE, WHITE, EMPTY, BLACK, BLACK, WHITE, EMPTY, EMPTY, EMPTY], color = BLACK\<rparr> \<and>
   move_undo (move_do horizon_board 5) 5 = horizon_board"
proof -
  have pos: "position horizon_board"
    by (simp add: position_def horizon_board_def SQUARES_MAX_def)
  have e: "sq horizon_board ! nat 5 = EMPTY"
    by (simp add: horizon_board_def)
  have "move_do horizon_board 5 =
     \<lparr>sq = [WHITE, WHITE, EMPTY, BLACK, BLACK, WHITE, EMPTY, EMPTY, EMPTY], color = BLACK\<rparr>"
    by (simp add: move_do_def horizon_board_def)
  with move_do_move_undo_restores [OF pos _ _ e] pos e show ?thesis
    by simp
qed

subsection \<open>C6: which move is chosen\<close>

text \<open>
  C6: for every position with an empty square and every depth, \<^verbatim>\<open>move_pick\<close> returns
  one of the generated moves, say the one at index \<open>k\<close>, and leaves the board as it was.
  Every candidate is scored by the \<^verbatim>\<open>minimax\<close> call on the board after the move. When
  White is to move no candidate has a greater score than candidate \<open>k\<close> and every
  earlier candidate has a strictly smaller one, so of the candidates with the best score
  the first is chosen; when no score is above \<^verbatim>\<open>-INF\<close>, the first generated move is
  chosen. When Black is to move the same holds with smaller scores and \<^verbatim>\<open>INF\<close>.
\<close>

theorem move_pick_strict_improvement:
  fixes pos :: board_pos and depth :: int
  defines "ms \<equiv> generated (move_generate pos)"
  defines "score \<equiv> \<lambda>i. minimax_score (move_do pos (ms ! i)) depth"
  assumes "position pos" and "\<exists>i<9. sq pos ! i = EMPTY"
  shows "(\<forall>i<length ms.
            minimax (move_do pos (ms ! i)) depth = Some (move_do pos (ms ! i), score i)) \<and>
         (\<exists>k<length ms.
            move_pick pos depth = Some (Inr (pos, ms ! k)) \<and>
            (color pos = WHITE \<longrightarrow>
               (\<forall>i<length ms. score i \<le> score k) \<and> (\<forall>i<k. score i < score k) \<and>
               ((\<forall>i<length ms. \<not> score i > - INF_score) \<longrightarrow> k = 0)) \<and>
            (color pos = BLACK \<longrightarrow>
               (\<forall>i<length ms. score k \<le> score i) \<and> (\<forall>i<k. score k < score i) \<and>
               ((\<forall>i<length ms. \<not> score i < INF_score) \<longrightarrow> k = 0)))"
proof -
  from assms(4) obtain j where "j < 9" and "sq pos ! j = EMPTY"
    by blast
  then have "ms \<noteq> []"
    unfolding ms_def by (rule generated_nonempty)
  then have "\<exists>k<length ms.
            move_pick pos depth = Some (Inr (pos, ms ! k)) \<and>
            (color pos = WHITE \<longrightarrow>
               (\<forall>i<length ms. score i \<le> score k) \<and> (\<forall>i<k. score i < score k) \<and>
               ((\<forall>i<length ms. \<not> score i > - INF_score) \<longrightarrow> k = 0)) \<and>
            (color pos = BLACK \<longrightarrow>
               (\<forall>i<length ms. score k \<le> score i) \<and> (\<forall>i<k. score k < score i) \<and>
               ((\<forall>i<length ms. \<not> score i < INF_score) \<longrightarrow> k = 0))"
    unfolding ms_def score_def by (rule move_pick_index [OF assms(3)])
  moreover have "minimax (move_do pos (ms ! i)) depth = Some (move_do pos (ms ! i), score i)"
    for i
    using position_minimax [OF position_move_do [OF assms(3)], of "ms ! i" depth]
    by (simp add: score_def)
  ultimately show ?thesis
    by simp
qed

theorem move_pick_strict_improvement_witness:
  "position horizon_board \<and> (\<exists>i<9. sq horizon_board ! i = EMPTY) \<and>
   color horizon_board = WHITE \<and>
   (\<exists>k<length (generated (move_generate horizon_board)).
      move_pick horizon_board 1 =
        Some (Inr (horizon_board, generated (move_generate horizon_board) ! k)) \<and>
      (\<forall>i<k. minimax_score (move_do horizon_board (generated (move_generate horizon_board) ! i)) 1
            < minimax_score (move_do horizon_board (generated (move_generate horizon_board) ! k)) 1))"
proof -
  have pos: "position horizon_board"
    by (simp add: position_def horizon_board_def SQUARES_MAX_def)
  have e: "\<exists>i<9. sq horizon_board ! i = EMPTY"
    by (intro exI [of _ 2]) (simp add: horizon_board_def)
  have c: "color horizon_board = WHITE"
    by (simp add: horizon_board_def)
  from move_pick_strict_improvement [OF pos e, of 1] pos e c show ?thesis
    by simp blast
qed

subsection \<open>C7: completing a row\<close>

lemma empty_squares_first:
  assumes "sq pos ! 0 \<noteq> EMPTY" and "sq pos ! 1 \<noteq> EMPTY" and "sq pos ! 2 = EMPTY"
  shows "\<exists>ms. generated (move_generate pos) = 2 # ms"
proof -
  have "[0..<SQUARES_MAX] = 0 # 1 # 2 # [3..<SQUARES_MAX]"
    by (simp add: SQUARES_MAX_def upt_rec)
  with assms show ?thesis
    by (simp add: generated_move_generate empty_squares_def)
qed

lemma checkmate_top_row:
  assumes "length (sq pos) = SQUARES_MAX" and "color pos = WHITE"
    and "sq pos ! 0 = WHITE" and "sq pos ! 1 = WHITE"
  shows "checkmate (move_do pos 2) = 1"
proof -
  have "[0, 1, 2] \<in> set winning_squares"
    by (simp add: winning_squares_def)
  moreover from assms have "\<forall>s\<in>set [0, 1, 2].
      sq (move_do pos 2) ! nat s = (if color (move_do pos 2) = WHITE then BLACK else WHITE)"
    by (simp add: move_do_def SQUARES_MAX_def)
  ultimately show ?thesis
    unfolding checkmate_iff by blast
qed

text \<open>
  C7: for every position in which White is to move, holds the squares 0 and 1, and
  square 2 is empty, \<^verbatim>\<open>move_pick\<close> at every depth from 1 on returns the move 2, and the
  board after that move is won.
\<close>

theorem move_pick_completes_row:
  assumes "position pos" and "color pos = WHITE"
    and "sq pos ! 0 = WHITE" and "sq pos ! 1 = WHITE" and "sq pos ! 2 = EMPTY"
    and "1 \<le> depth"
  shows "move_pick pos depth = Some (Inr (pos, 2)) \<and> checkmate (move_do pos 2) = 1"
proof -
  let ?ms = "generated (move_generate pos)"
  let ?sc = "\<lambda>i. minimax_score (move_do pos (?ms ! i)) depth"
  from assms obtain ms where ms: "?ms = 2 # ms"
    using empty_squares_first [of pos] by auto
  from assms have won: "checkmate (move_do pos 2) = 1"
    by (simp add: checkmate_top_row position_def)
  then have "minimax_score (move_do pos 2) depth = INF_score"
    using assms(2) by (simp add: minimax_score_won move_do_def)
  with ms have first: "?sc 0 = INF_score"
    by simp
  from ms have "?ms \<noteq> []"
    by simp
  from move_pick_index [OF assms(1) this, of depth] assms(2)
  obtain k where k: "k < length ?ms" "move_pick pos depth = Some (Inr (pos, ?ms ! k))"
    "\<forall>i<k. ?sc i < ?sc k"
    by auto
  have "?sc k \<le> INF_score"
    using position_minimax [OF position_move_do [OF assms(1)], of "?ms ! k" depth] by simp
  with k(3) first have "k = 0"
    by (cases k) auto
  with k(2) ms won show ?thesis
    by simp
qed

theorem move_pick_completes_row_witness:
  "position horizon_board \<and> color horizon_board = WHITE \<and>
   sq horizon_board ! 0 = WHITE \<and> sq horizon_board ! 1 = WHITE \<and> sq horizon_board ! 2 = EMPTY \<and>
   (1::int) \<le> 3 \<and> move_pick horizon_board 3 = Some (Inr (horizon_board, 2)) \<and>
   checkmate (move_do horizon_board 2) = 1"
proof -
  have pos: "position horizon_board"
    by (simp add: position_def horizon_board_def SQUARES_MAX_def)
  have sq: "color horizon_board = WHITE" "sq horizon_board ! 0 = WHITE"
    "sq horizon_board ! 1 = WHITE" "sq horizon_board ! 2 = EMPTY"
    by (simp_all add: horizon_board_def)
  from move_pick_completes_row [OF pos sq, of 3] pos sq show ?thesis
    by simp
qed

subsection \<open>C8: the number of marks of each colour\<close>

text \<open>
  The invariant of the specification: the colour to move is a mark, the numbers of white
  and black squares differ by at most 1, and the colour to move does not have more squares
  than the other colour.
\<close>

definition count_invariant :: "board_pos \<Rightarrow> bool" where
  "count_invariant pos \<longleftrightarrow>
     color pos \<noteq> EMPTY \<and>
     \<bar>int (count_list (sq pos) WHITE) - int (count_list (sq pos) BLACK)\<bar> \<le> 1 \<and>
     count_list (sq pos) (color pos) \<le>
       count_list (sq pos) (if color pos = WHITE then BLACK else WHITE)"

lemma count_list_update:
  assumes "i < length xs"
  shows "count_list (xs[i := b]) c + (if xs ! i = c then 1 else 0) =
     count_list xs c + (if b = c then 1 else 0)"
  using assms
proof (induction xs arbitrary: i)
  case Nil
  then show ?case by simp
next
  case (Cons x xs)
  show ?case
  proof (cases i)
    case 0
    then show ?thesis by simp
  next
    case (Suc j)
    with Cons.prems have "j < length xs"
      by simp
    from Cons.IH [OF this] Suc show ?thesis
      by (auto split: if_splits)
  qed
qed

lemma count_invariant_move_do:
  assumes "count_invariant pos" and "nat m < length (sq pos)" and "sq pos ! nat m = EMPTY"
  shows "count_invariant (move_do pos m)"
proof -
  have "count_list ((sq pos)[nat m := color pos]) c =
      count_list (sq pos) c + (if color pos = c then 1 else 0)" if "c \<noteq> EMPTY" for c
    using count_list_update [OF assms(2), of "color pos" c] assms(3) that by simp
  from this [of WHITE] this [of BLACK] assms(1) show ?thesis
    by (cases "color pos") (auto simp: count_invariant_def move_do_def)
qed

lemma count_invariant_move_undo:
  assumes "count_invariant pos" and "nat m < length (sq pos)"
    and "sq pos ! nat m \<noteq> EMPTY" and "sq pos ! nat m \<noteq> color pos"
  shows "count_invariant (move_undo pos m)"
proof -
  have "count_list ((sq pos)[nat m := EMPTY]) c + (if sq pos ! nat m = c then 1 else 0) =
      count_list (sq pos) c" if "c \<noteq> EMPTY" for c
    using count_list_update [OF assms(2), of EMPTY c] that by simp
  from this [of WHITE] this [of BLACK] assms(1,3,4) show ?thesis
    by (cases "color pos"; cases "sq pos ! nat m")
      (auto simp: count_invariant_def move_undo_def)
qed

text \<open>
  C8: for every position with the invariant and every square 0 to 8, if the square is
  empty then the invariant holds after \<^verbatim>\<open>move_do\<close> and again after the matching
  \<^verbatim>\<open>move_undo\<close>; and \<^verbatim>\<open>move_undo\<close> of a square that holds the mark of the side that
  moved last keeps the invariant as well.
\<close>

theorem count_invariant_preserved:
  assumes "position pos" and "count_invariant pos" and "0 \<le> m" and "m < 9"
  shows "(sq pos ! nat m = EMPTY \<longrightarrow>
            count_invariant (move_do pos m) \<and> count_invariant (move_undo (move_do pos m) m)) \<and>
         (sq pos ! nat m \<noteq> EMPTY \<and> sq pos ! nat m \<noteq> color pos \<longrightarrow>
            count_invariant (move_undo pos m))"
proof -
  from assms have m: "nat m < length (sq pos)" and c: "color pos \<noteq> EMPTY"
    by (simp_all add: position_def SQUARES_MAX_def)
  show ?thesis
    using assms(2) m c
    by (auto simp: count_invariant_move_do count_invariant_move_undo move_undo_move_do)
qed

theorem count_invariant_preserved_witness:
  "position horizon_board \<and> count_invariant horizon_board \<and>
   sq horizon_board ! nat 5 = EMPTY \<and> count_invariant (move_do horizon_board 5) \<and>
   count_invariant (move_undo (move_do horizon_board 5) 5) \<and>
   sq horizon_board ! nat 4 = BLACK \<and> color horizon_board = WHITE \<and>
   count_invariant (move_undo horizon_board 4)"
proof -
  have pos: "position horizon_board"
    by (simp add: position_def horizon_board_def SQUARES_MAX_def)
  have inv: "count_invariant horizon_board"
    by (simp add: count_invariant_def horizon_board_def)
  have sq: "sq horizon_board ! nat 5 = EMPTY" "sq horizon_board ! nat 4 = BLACK"
    "color horizon_board = WHITE"
    by (simp_all add: horizon_board_def)
  from count_invariant_preserved [OF pos inv, of 5] count_invariant_preserved [OF pos inv, of 4]
    pos inv sq
  show ?thesis
    by simp
qed

subsection \<open>C9: the range of the scores\<close>

text \<open>
  C9: for every position, \<^verbatim>\<open>eval\<close> is at most 8 in absolute value, which is below
  \<^verbatim>\<open>INF\<close> = 100; so the score that \<^verbatim>\<open>minimax\<close> returns at depth 0 on a board that is
  neither won nor full is neither \<^verbatim>\<open>INF\<close> nor \<^verbatim>\<open>-INF\<close>; and at every depth \<^verbatim>\<open>minimax\<close>
  returns a score between -100 and 100.
\<close>

theorem eval_below_INF:
  assumes "position pos"
  shows "\<bar>eval pos\<bar> \<le> 8 \<and> 8 < INF_score \<and>
         (checkmate pos = 0 \<and> (\<exists>i<9. sq pos ! i = EMPTY) \<longrightarrow>
            (\<exists>v. minimax pos 0 = Some (pos, v) \<and> v \<noteq> INF_score \<and> v \<noteq> - INF_score)) \<and>
         (\<exists>v. minimax pos depth = Some (pos, v) \<and> - 100 \<le> v \<and> v \<le> 100)"
proof -
  from assms have e: "\<bar>eval pos\<bar> \<le> 8"
    by (simp add: eval_bound position_def)
  then have "\<exists>v. minimax pos 0 = Some (pos, v) \<and> v \<noteq> INF_score \<and> v \<noteq> - INF_score"
    if "checkmate pos = 0" and "\<exists>i<9. sq pos ! i = EMPTY"
    using that by (auto simp: minimax_horizon board_empty_iff SQUARES_MAX_def INF_score_def)
  moreover have "\<exists>v. minimax pos depth = Some (pos, v) \<and> - 100 \<le> v \<and> v \<le> 100"
    using position_minimax [OF assms, of depth] by (auto simp: INF_score_def)
  ultimately show ?thesis
    using e by (simp add: INF_score_def)
qed

theorem eval_below_INF_witness:
  "position horizon_board \<and> \<bar>eval horizon_board\<bar> \<le> 8 \<and> checkmate horizon_board = 0 \<and>
   (\<exists>i<9. sq horizon_board ! i = EMPTY) \<and>
   (\<exists>v. minimax horizon_board 0 = Some (horizon_board, v) \<and> v \<noteq> INF_score \<and> v \<noteq> - INF_score) \<and>
   (\<exists>v. minimax horizon_board 2 = Some (horizon_board, v) \<and> - 100 \<le> v \<and> v \<le> 100)"
proof -
  have pos: "position horizon_board"
    by (simp add: position_def horizon_board_def SQUARES_MAX_def)
  have won: "checkmate horizon_board = 0"
    by code_simp
  have empty: "\<exists>i<9. sq horizon_board ! i = EMPTY"
    by (intro exI [of _ 2]) (simp add: horizon_board_def)
  from eval_below_INF [OF pos, of 2] pos won empty show ?thesis
    by simp
qed

subsection \<open>C10: termination of the search\<close>

text \<open>
  C10: for every board and every depth that is not negative, \<^verbatim>\<open>minimax\<close> returns. The
  proof is by induction on the depth (\<open>minimax_returns_nat\<close>): a won board, a full board
  and depth 0 return at once (\<open>minimax_won\<close>, \<open>minimax_full\<close>, \<open>minimax_horizon\<close>), and
  every other call only calls \<^verbatim>\<open>minimax\<close> with the depth less one (\<open>minimax_inner\<close>).
\<close>

theorem minimax_terminates:
  assumes "0 \<le> depth"
  shows "\<exists>p v. minimax pos depth = Some (p, v)"
  using assms minimax_returns_nat [of pos "nat depth"] by simp

theorem minimax_terminates_witness:
  "(0::int) \<le> 3 \<and> (\<exists>p v. minimax horizon_board 3 = Some (p, v))"
  using minimax_terminates [of 3 horizon_board] by simp

end
